theory Spec2Isabelle
  imports Main "HOL-Library.AList"
begin

section \<open>Strings\<close>

text \<open>
  A Python \<open>str\<close> is modelled as a \<open>string\<close> whose characters are the code points
  below 256. Code points above that range are outside the model.
\<close>

definition lower_char :: "char \<Rightarrow> char" where
  "lower_char c =
     (let n = (of_char c :: nat)
      in if (65 \<le> n \<and> n \<le> 90) \<or> (192 \<le> n \<and> n \<le> 222 \<and> n \<noteq> 215)
         then char_of (n + 32) else c)"

definition lower :: "string \<Rightarrow> string" where
  "lower s = map lower_char s"

text \<open>\<open>s.split(c)\<close>: the pieces between the occurrences of \<open>c\<close>; never empty.\<close>

fun split_on :: "char \<Rightarrow> string \<Rightarrow> string list" where
  "split_on c [] = [[]]"
| "split_on c (x # xs) =
     (let ps = split_on c xs
      in if x = c then [] # ps else (x # hd ps) # tl ps)"

text \<open>\<open>s.rfind(c)\<close>: the index of the last occurrence of \<open>c\<close>, or \<open>-1\<close>.\<close>

fun rfind :: "char \<Rightarrow> string \<Rightarrow> int" where
  "rfind c [] = - 1"
| "rfind c (x # xs) =
     (let r = rfind c xs
      in if 0 \<le> r then r + 1 else if x = c then 0 else - 1)"

text \<open>\<open>sep.join(xs)\<close>\<close>

fun join_with :: "string \<Rightarrow> string list \<Rightarrow> string" where
  "join_with sep [] = []"
| "join_with sep [x] = x"
| "join_with sep (x # y # ys) = x @ sep @ join_with sep (y # ys)"

section \<open>Configuration\<close>

definition WATCH_DIR :: string where
  "WATCH_DIR = ''./media''"

definition PROCESSED_FILES :: string where
  "PROCESSED_FILES = ''processed_files.json''"


section \<open>Paths\<close>

text \<open>
  \<open>pathlib\<close> and \<open>os.path\<close> in their POSIX flavour (separator \<open>/\<close>, no drive).
  A \<open>Path\<close> object is its root (\<open>''''\<close>, \<open>''/''\<close> or \<open>''//''\<close>) and the list of its
  components.
\<close>

record pure_path =
  root :: string
  parts :: "string list"

definition splitroot :: "string \<Rightarrow> string \<times> string" where
  "splitroot p =
     (if take 1 p \<noteq> ''/'' then ('''', p)
      else if take 1 (drop 1 p) \<noteq> ''/'' \<or> take 1 (drop 2 p) = ''/'' then (''/'', drop 1 p)
      else (''//'', drop 2 p))"

text \<open>\<open>Path(s)\<close>: empty components and \<open>.\<close> components are dropped.\<close>

definition Path :: "string \<Rightarrow> pure_path" where
  "Path s =
     (case splitroot s of
        (r, rel) \<Rightarrow>
          \<lparr>root = r, parts = filter (\<lambda>x. x \<noteq> [] \<and> x \<noteq> ''.'') (split_on CHR ''/'' rel)\<rparr>)"

text \<open>\<open>str(p)\<close>, which is also what \<open>open(p)\<close> hands to the operating system.\<close>

definition path_str :: "pure_path \<Rightarrow> string" where
  "path_str p =
     (let s = root p @ join_with ''/'' (parts p)
      in if s = [] then ''.'' else s)"

text \<open>\<open>p.name\<close>: the final component, empty when there is none.\<close>

definition name :: "pure_path \<Rightarrow> string" where
  "name p = (if parts p = [] then [] else last (parts p))"

text \<open>
  \<open>p.suffix\<close>: the part of the name from its last dot on, unless that dot is the first
  or the last character of the name.
\<close>

definition suffix :: "pure_path \<Rightarrow> string" where
  "suffix p =
     (let n = name p; i = rfind CHR ''.'' n
      in if 0 < i \<and> i < int (length n) - 1 then drop (nat i) n else [])"

text \<open>\<open>p.stem\<close>: the name without its suffix.\<close>

definition stem :: "pure_path \<Rightarrow> string" where
  "stem p =
     (let n = name p; i = rfind CHR ''.'' n
      in if 0 < i \<and> i < int (length n) - 1 then take (nat i) n else n)"

datatype exn =
    ValueError
  | FileNotFoundError
  | OSError
  | JSONDecodeError
  | CalledProcessError int
  | ExternalError string

text \<open>
  \<open>p.with_suffix(sfx)\<close>: a \<open>ValueError\<close> for a malformed suffix or a path with an empty
  name, otherwise the path with the suffix of its last component replaced.
\<close>

definition with_suffix :: "pure_path \<Rightarrow> string \<Rightarrow> exn + pure_path" where
  "with_suffix p sfx =
     (if CHR ''/'' \<in> set sfx then Inl ValueError
      else if (sfx \<noteq> [] \<and> take 1 sfx \<noteq> ''.'') \<or> sfx = ''.'' then Inl ValueError
      else if name p = [] then Inl ValueError
      else
        (let old_suffix = suffix p;
             n = (if old_suffix = [] then name p @ sfx
                  else take (length (name p) - length old_suffix) (name p) @ sfx)
         in Inr (p\<lparr>parts := butlast (parts p) @ [n]\<rparr>)))"



section \<open>The world\<close>

text \<open>
  The processed set is a Python \<open>dict\<close> from path strings to transcript file names; a
  \<open>dict\<close> keeps its keys in insertion order, so it is an association list. Assignment
  \<open>d[k] = v\<close> is \<open>AList.update k v\<close>: the value is replaced in place for a key that is
  present, appended otherwise.
\<close>

type_synonym pset = "(string \<times> string) list"

text \<open>
  The durable state file, described by what \<open>os.path.exists\<close>, \<open>open\<close> and \<open>json.load\<close>
  make of it: no file; a file that cannot be opened; a file whose content is not a JSON
  document; a file holding the JSON object of a mapping.
\<close>

datatype durable = Absent | Unreadable | Corrupt | Holds pset

text \<open>The effects of the program, in the order in which it performs them.\<close>

datatype event =
    Slept int
  | Ran "string list"
  | Transcribed string
  | Opened string
  | Wrote string string
  | Recorded string string
  | Saved pset

text \<open>
  \<open>disk w p\<close> is the content of the file that the operating system finds under the path
  string \<open>p\<close>, if there is one; a write through one spelling of a path is not seen through
  another spelling. The durable state file is kept apart from these files. The clock is
  in seconds; only \<open>time.sleep\<close> advances it. Console output is not part of the state.
\<close>

record world =
  clock :: int
  disk :: "string \<rightharpoonup> string"
  state_file :: durable
  trace :: "event list"

text \<open>
  What the program does not decide: what other processes do to the media tree while the
  program sleeps (\<open>elapse t d\<close>: during \<open>d\<close> seconds from time \<open>t\<close>), what a child process
  does (either it cannot be started, or it leaves an exit status, and the media tree as it
  is afterwards), and whether the operating system refuses to open a file for writing or
  fails the write.
\<close>

record env =
  elapse :: "int \<Rightarrow> int \<Rightarrow> (string \<rightharpoonup> string) \<Rightarrow> (string \<rightharpoonup> string)"
  subprocess :: "world \<Rightarrow> string list \<Rightarrow> (exn + int) \<times> (string \<rightharpoonup> string)"
  open_error :: "world \<Rightarrow> string \<Rightarrow> exn option"
  write_error :: "world \<Rightarrow> string \<Rightarrow> exn option"

text \<open>
  The speech-to-text model: \<open>model.transcribe(path)\<close> raises or returns a result whose
  \<open>"text"\<close> entry is the transcript.
\<close>

record transcription =
  text_of :: string

type_synonym whisper = "world \<Rightarrow> string \<Rightarrow> exn + transcription"

text \<open>UTF-8 of a string of code points below 256.\<close>

definition utf8_char :: "char \<Rightarrow> string" where
  "utf8_char c =
     (let n = (of_char c :: nat)
      in if n < 128 then [c] else [char_of (192 + n div 64), char_of (128 + n mod 64)])"

definition utf8 :: "string \<Rightarrow> string" where
  "utf8 s = concat (map utf8_char s)"

section \<open>Processed-set store\<close>

definition load_processed_files :: "world \<Rightarrow> exn + pset" where
  "load_processed_files w =
     (if state_file w \<noteq> Absent then
        (case state_file w of
           Unreadable \<Rightarrow> Inl OSError
         | Corrupt \<Rightarrow> Inl JSONDecodeError
         | Holds ps \<Rightarrow> Inr ps
         | Absent \<Rightarrow> Inl FileNotFoundError)
      else Inr [])"

text \<open>
  \<open>open(PROCESSED_FILES, "w")\<close> truncates the file, which then holds no JSON document
  until \<open>json.dump\<close> has written all of it.
\<close>

definition save_processed_files :: "env \<Rightarrow> pset \<Rightarrow> world \<Rightarrow> (exn + unit) \<times> world" where
  "save_processed_files e processed_files w =
     (case open_error e w PROCESSED_FILES of
        Some x \<Rightarrow> (Inl x, w)
      | None \<Rightarrow>
          (case write_error e w PROCESSED_FILES of
             Some x \<Rightarrow> (Inl x, w\<lparr>state_file := Corrupt\<rparr>)
           | None \<Rightarrow>
               (Inr (), w\<lparr>state_file := Holds processed_files,
                           trace := trace w @ [Saved processed_files]\<rparr>)))"

section \<open>Readiness detection\<close>

text \<open>\<open>time.sleep(d)\<close>\<close>

definition tick :: "env \<Rightarrow> int \<Rightarrow> world \<Rightarrow> world" where
  "tick e d w =
     w\<lparr>clock := clock w + d,
       disk := elapse e (clock w) d (disk w),
       trace := trace w @ [Slept d]\<rparr>"

definition sleep :: "env \<Rightarrow> int \<Rightarrow> world \<Rightarrow> exn + world" where
  "sleep e d w = (if d < 0 then Inl ValueError else Inr (tick e d w))"

definition getsize :: "world \<Rightarrow> string \<Rightarrow> exn + nat" where
  "getsize w p = (case disk w p of None \<Rightarrow> Inl FileNotFoundError | Some b \<Rightarrow> Inr (length b))"

text \<open>
  The loop of \<open>wait_for_download\<close>. It need not end (a poll interval of zero on a path
  that never appears), so not returning is the value \<open>None\<close>.
\<close>

partial_function (option) wait_loop ::
  "env \<Rightarrow> string \<Rightarrow> int \<Rightarrow> int \<Rightarrow> int \<Rightarrow> world \<Rightarrow> ((exn + bool) \<times> world) option" where
  "wait_loop e file_path timeout check_interval start_time w =
     (if clock w - start_time < timeout then
        (if disk w file_path = None then
           (case sleep e check_interval w of
              Inl x \<Rightarrow> Some (Inl x, w)
            | Inr w1 \<Rightarrow> wait_loop e file_path timeout check_interval start_time w1)
         else
           (case getsize w file_path of
              Inl x \<Rightarrow> Some (Inl x, w)
            | Inr initial_size \<Rightarrow>
                (case sleep e check_interval w of
                   Inl x \<Rightarrow> Some (Inl x, w)
                 | Inr w1 \<Rightarrow>
                     (case getsize w1 file_path of
                        Inl x \<Rightarrow> Some (Inl x, w1)
                      | Inr s \<Rightarrow>
                          if s = initial_size then Some (Inr True, w1)
                          else wait_loop e file_path timeout check_interval start_time w1))))
      else Some (Inr False, w))"

definition wait_for_download ::
  "env \<Rightarrow> string \<Rightarrow> int \<Rightarrow> int \<Rightarrow> world \<Rightarrow> ((exn + bool) \<times> world) option" where
  "wait_for_download e file_path timeout check_interval w =
     wait_loop e file_path timeout check_interval (clock w) w"

section \<open>Media normalizer\<close>

text \<open>\<open>subprocess.run(argv, check=True)\<close>\<close>

definition run_checked :: "env \<Rightarrow> string list \<Rightarrow> world \<Rightarrow> (exn + unit) \<times> world" where
  "run_checked e argv w =
     (case subprocess e w argv of
        (r, d) \<Rightarrow>
          (let w1 = w\<lparr>disk := d, trace := trace w @ [Ran argv]\<rparr>
           in case r of
                Inl x \<Rightarrow> (Inl x, w1)
              | Inr status \<Rightarrow>
                  if status \<noteq> 0 then (Inl (CalledProcessError status), w1) else (Inr (), w1)))"

definition video_suffixes :: "string set" where
  "video_suffixes = {''.mp4'', ''.mkv'', ''.mov'', ''.flv''}"

definition extract_audio :: "env \<Rightarrow> pure_path \<Rightarrow> world \<Rightarrow> (exn + pure_path) \<times> world" where
  "extract_audio e file_path w =
     (let ext = lower (suffix file_path)
      in if ext \<in> video_suffixes then
           (case with_suffix file_path ''.wav'' of
              Inl x \<Rightarrow> (Inl x, w)
            | Inr audio_path \<Rightarrow>
                if disk w (path_str audio_path) = None then
                  (case run_checked e
                          [''ffmpeg'', ''-i'', path_str file_path, path_str audio_path] w of
                     (Inl x, w1) \<Rightarrow> (Inl x, w1)
                   | (Inr u, w1) \<Rightarrow> (Inr audio_path, w1))
                else (Inr audio_path, w))
         else (Inr file_path, w))"

section \<open>Transcription orchestrator\<close>

text \<open>\<open>model.transcribe(p)\<close>\<close>

definition transcribe :: "whisper \<Rightarrow> string \<Rightarrow> world \<Rightarrow> (exn + transcription) \<times> world" where
  "transcribe model p w = (model w p, w\<lparr>trace := trace w @ [Transcribed p]\<rparr>)"

text \<open>
  \<open>with open(p, "w", encoding="utf-8") as f: f.write(s)\<close>: opening creates or truncates
  the file; the write then stores the UTF-8 bytes of \<open>s\<close>.
\<close>

definition write_text :: "env \<Rightarrow> string \<Rightarrow> string \<Rightarrow> world \<Rightarrow> (exn + unit) \<times> world" where
  "write_text e p s w =
     (case open_error e w p of
        Some x \<Rightarrow> (Inl x, w)
      | None \<Rightarrow>
          (let w1 = w\<lparr>disk := (disk w)(p \<mapsto> []), trace := trace w @ [Opened p]\<rparr>
           in case write_error e w1 p of
                Some x \<Rightarrow> (Inl x, w1)
              | None \<Rightarrow>
                  (Inr (), w1\<lparr>disk := (disk w1)(p \<mapsto> utf8 s),
                               trace := trace w1 @ [Wrote p (utf8 s)]\<rparr>)))"

text \<open>\<open>processed_files[k] = v\<close>\<close>

definition record_entry :: "string \<Rightarrow> string \<Rightarrow> pset \<Rightarrow> world \<Rightarrow> pset \<times> world" where
  "record_entry k v processed_files w =
     (AList.update k v processed_files, w\<lparr>trace := trace w @ [Recorded k v]\<rparr>)"

text \<open>
  \<open>transcribe_file\<close> returns nothing; its outcome is the exception that left it, if any,
  the processed set as it is afterwards, and the world.
\<close>

definition transcribe_file ::
  "env \<Rightarrow> string \<Rightarrow> whisper \<Rightarrow> pset \<Rightarrow> world \<Rightarrow> ((exn + unit) \<times> pset \<times> world) option" where
  "transcribe_file e file_path model processed_files w =
     (if file_path \<in> fst ` set processed_files then Some (Inr (), processed_files, w)
      else
        (case wait_for_download e file_path 900 5 w of
           None \<Rightarrow> None
         | Some (Inl x, w1) \<Rightarrow> Some (Inl x, processed_files, w1)
         | Some (Inr ready, w1) \<Rightarrow>
             if \<not> ready then Some (Inr (), processed_files, w1)
             else
               (case extract_audio e (Path file_path) w1 of
                  (Inl x, w2) \<Rightarrow> Some (Inl x, processed_files, w2)
                | (Inr audio_path, w2) \<Rightarrow>
                    (case transcribe model (path_str audio_path) w2 of
                       (Inl x, w3) \<Rightarrow> Some (Inl x, processed_files, w3)
                     | (Inr result, w3) \<Rightarrow>
                         (case with_suffix (Path file_path) ''.txt'' of
                            Inl x \<Rightarrow> Some (Inl x, processed_files, w3)
                          | Inr text_file \<Rightarrow>
                              (case write_text e (path_str text_file) (text_of result) w3 of
                                 (Inl x, w4) \<Rightarrow> Some (Inl x, processed_files, w4)
                               | (Inr u, w4) \<Rightarrow>
                                   (case record_entry file_path (name text_file)
                                           processed_files w4 of
                                      (processed_files', w5) \<Rightarrow>
                                        (case save_processed_files e processed_files' w5 of
                                           (Inl x, w6) \<Rightarrow> Some (Inl x, processed_files', w6)
                                         | (Inr u', w6) \<Rightarrow>
                                             Some (Inr (), processed_files', w6)))))))))"

section \<open>Directory scanner\<close>





section \<open>Live watcher\<close>




section \<open>Effects that persist\<close>

text \<open>
  The events that change what outlives the call: the transcript file, the processed set
  and the durable state file.
\<close>

fun persisting :: "event \<Rightarrow> bool" where
  "persisting (Opened p) = True"
| "persisting (Wrote p b) = True"
| "persisting (Recorded k v) = True"
| "persisting (Saved ps) = True"
| "persisting (Slept d) = False"
| "persisting (Ran argv) = False"
| "persisting (Transcribed p) = False"

text \<open>The completed writes of a transcript file.\<close>

fun transcript_write :: "event \<Rightarrow> bool" where
  "transcript_write (Wrote p b) = True"
| "transcript_write (Opened p) = False"
| "transcript_write (Recorded k v) = False"
| "transcript_write (Saved ps) = False"
| "transcript_write (Slept d) = False"
| "transcript_write (Ran argv) = False"
| "transcript_write (Transcribed p) = False"

text \<open>The invocations of an external tool.\<close>

fun extraction :: "event \<Rightarrow> bool" where
  "extraction (Ran argv) = True"
| "extraction (Slept d) = False"
| "extraction (Transcribed p) = False"
| "extraction (Opened p) = False"
| "extraction (Wrote p b) = False"
| "extraction (Recorded k v) = False"
| "extraction (Saved ps) = False"

section \<open>Example environments\<close>

text \<open>
  An environment in which nothing else touches the media tree, every file can be written
  and the extraction tool succeeds, leaving its output file.
\<close>

definition quiet :: env where
  "quiet =
     \<lparr>elapse = (\<lambda>t d files. files),
      subprocess = (\<lambda>w argv. (Inr 0, (disk w)(last argv \<mapsto> ''RIFF''))),
      open_error = (\<lambda>w p. None),
      write_error = (\<lambda>w p. None)\<rparr>"

text \<open>The same, but every file gains a byte during each sleep.\<close>

definition growing :: env where
  "growing = quiet\<lparr>elapse := (\<lambda>t d files q. map_option (\<lambda>b. b @ ''x'') (files q))\<rparr>"

text \<open>The same as \<open>quiet\<close>, but the extraction tool exits with status 1 and leaves nothing.\<close>

definition failing_tool :: env where
  "failing_tool = quiet\<lparr>subprocess := (\<lambda>w argv. (Inr 1, disk w))\<rparr>"

text \<open>A model that hears the same word in every file.\<close>

definition speech :: whisper where
  "speech w p = Inr \<lparr>text_of = ''hello''\<rparr>"

text \<open>A model that fails on every file.\<close>

definition deaf :: whisper where
  "deaf w p = Inl (ExternalError ''no speech'')"

text \<open>A media tree with one audio file and one video file, and no state file yet.\<close>

definition desk :: world where
  "desk =
     \<lparr>clock = 0,
      disk = [''media/clip.mp3'' \<mapsto> ''abc'', ''media/video.mp4'' \<mapsto> ''abcdef''],
      state_file = Absent,
      trace = []\<rparr>"

text \<open>The same tree after the audio file has been processed in the quiet environment.\<close>

definition desk_done :: world where
  "desk_done =
     \<lparr>clock = 5,
      disk = [''media/clip.mp3'' \<mapsto> ''abc'', ''media/video.mp4'' \<mapsto> ''abcdef'',
              ''media/clip.txt'' \<mapsto> ''hello''],
      state_file = Holds [(''media/clip.mp3'', ''clip.txt'')],
      trace = [Slept 5, Transcribed ''media/clip.mp3'', Opened ''media/clip.txt'',
               Wrote ''media/clip.txt'' ''hello'', Recorded ''media/clip.mp3'' ''clip.txt'',
               Saved [(''media/clip.mp3'', ''clip.txt'')]]\<rparr>"

text \<open>The tree of \<open>desk\<close> after the audio of the video file has been extracted.\<close>

definition desk_wav :: world where
  "desk_wav =
     \<lparr>clock = 0,
      disk = [''media/clip.mp3'' \<mapsto> ''abc'', ''media/video.mp4'' \<mapsto> ''abcdef'',
              ''media/video.wav'' \<mapsto> ''RIFF''],
      state_file = Absent,
      trace = [Ran [''ffmpeg'', ''-i'', ''media/video.mp4'', ''media/video.wav'']]\<rparr>"

text \<open>The tree of \<open>desk\<close> after the video file has been processed in the quiet environment.\<close>

definition desk_video_done :: world where
  "desk_video_done =
     \<lparr>clock = 5,
      disk = [''media/clip.mp3'' \<mapsto> ''abc'', ''media/video.mp4'' \<mapsto> ''abcdef'',
              ''media/video.wav'' \<mapsto> ''RIFF'', ''media/video.txt'' \<mapsto> ''hello''],
      state_file = Holds [(''media/video.mp4'', ''video.txt'')],
      trace = [Slept 5, Ran [''ffmpeg'', ''-i'', ''media/video.mp4'', ''media/video.wav''],
               Transcribed ''media/video.wav'', Opened ''media/video.txt'',
               Wrote ''media/video.txt'' ''hello'', Recorded ''media/video.mp4'' ''video.txt'',
               Saved [(''media/video.mp4'', ''video.txt'')]]\<rparr>"



section \<open>Basic facts\<close>

lemma tick_state_file: "state_file (tick e d w) = state_file w"
  by (simp add: tick_def)

lemma tick_trace: "trace (tick e d w) = trace w @ [Slept d]"
  by (simp add: tick_def)

lemma tick_clock: "clock (tick e d w) = clock w + d"
  by (simp add: tick_def)

lemma ticks_clock: "clock ((tick e d ^^ k) w) = clock w + int k * d"
  by (induction k) (simp_all add: tick_clock algebra_simps)

lemma ticks_trace: "trace ((tick e d ^^ k) w) = trace w @ replicate k (Slept d)"
  by (induction k) (simp_all add: tick_trace replicate_append_same)

lemma ticks_state_file: "state_file ((tick e d ^^ k) w) = state_file w"
  by (induction k) (simp_all add: tick_state_file)

subsection \<open>The readiness loop\<close>

lemma wait_loop_total:
  assumes "0 < I"
  shows "\<exists>y. wait_loop e p T I s w = Some y"
proof (induction "nat (T - (clock w - s))" arbitrary: w rule: less_induct)
  case less
  show ?case
  proof (cases "clock w - s < T")
    case False
    then show ?thesis by (subst wait_loop.simps) simp
  next
    case True
    with assms have "nat (T - (clock (tick e I w) - s)) < nat (T - (clock w - s))"
      by (simp add: tick_clock)
    from less[OF this] obtain y where y: "wait_loop e p T I s (tick e I w) = Some y" by blast
    from assms have sl: "sleep e I w = Inr (tick e I w)" by (simp add: sleep_def)
    show ?thesis
      by (subst wait_loop.simps) (simp add: True sl y split: sum.split)
  qed
qed

lemma wait_loop_static:
  assumes "clock w - s < T" and "0 \<le> I"
    and "disk w p = Some b" and "disk (tick e I w) p = Some b'" and "length b' = length b"
  shows "wait_loop e p T I s w = Some (Inr True, tick e I w)"
  using assms by (subst wait_loop.simps) (simp add: sleep_def getsize_def)

lemma wait_loop_absent:
  assumes "0 \<le> I"
    and "\<forall>j<k. clock ((tick e I ^^ j) w) - s < T \<and> disk ((tick e I ^^ j) w) p = None"
  shows "wait_loop e p T I s w = wait_loop e p T I s ((tick e I ^^ k) w)"
  using assms(2)
proof (induction k arbitrary: w)
  case 0
  show ?case by simp
next
  case (Suc k)
  from Suc.prems have here: "clock w - s < T" "disk w p = None"
    by (metis funpow_0 zero_less_Suc)+
  have "\<forall>j<k. clock ((tick e I ^^ j) (tick e I w)) - s < T \<and> disk ((tick e I ^^ j) (tick e I w)) p = None"
  proof (intro allI impI)
    fix j assume "j < k"
    then have "Suc j < Suc k" by simp
    with Suc.prems show "clock ((tick e I ^^ j) (tick e I w)) - s < T \<and> disk ((tick e I ^^ j) (tick e I w)) p = None"
      by (metis funpow_Suc_right o_apply)
  qed
  from Suc.IH[OF this]
  have "wait_loop e p T I s (tick e I w) = wait_loop e p T I s ((tick e I ^^ Suc k) w)"
    by (simp add: funpow_swap1)
  moreover have "wait_loop e p T I s w = wait_loop e p T I s (tick e I w)"
    using here assms(1) by (subst wait_loop.simps) (simp add: sleep_def)
  ultimately show ?case by simp
qed

lemma wait_loop_growing:
  assumes "0 < I"
    and "\<forall>j. clock ((tick e I ^^ j) w) - s < T \<longrightarrow>
           (\<exists>b b'. disk ((tick e I ^^ j) w) p = Some b \<and> disk ((tick e I ^^ Suc j) w) p = Some b'
                  \<and> length b' \<noteq> length b)"
  shows "\<exists>n. wait_loop e p T I s w = Some (Inr False, (tick e I ^^ n) w)
           \<and> T \<le> clock ((tick e I ^^ n) w) - s
           \<and> (n = 0 \<or> clock ((tick e I ^^ n) w) - s < T + I)"
  using assms(2)
proof (induction "nat (T - (clock w - s))" arbitrary: w rule: less_induct)
  case less
  show ?case
  proof (cases "clock w - s < T")
    case False
    then have "wait_loop e p T I s w = Some (Inr False, w)"
      by (subst wait_loop.simps) simp
    with False show ?thesis by (intro exI[of _ 0]) simp
  next
    case True
    let ?w1 = "tick e I w"
    from True assms(1) have dec: "nat (T - (clock ?w1 - s)) < nat (T - (clock w - s))"
      by (simp add: tick_clock)
    have traj: "\<forall>j. clock ((tick e I ^^ j) ?w1) - s < T \<longrightarrow>
           (\<exists>b b'. disk ((tick e I ^^ j) ?w1) p = Some b \<and> disk ((tick e I ^^ Suc j) ?w1) p = Some b'
                  \<and> length b' \<noteq> length b)"
    proof (intro allI impI)
      fix j assume "clock ((tick e I ^^ j) ?w1) - s < T"
      then have "clock ((tick e I ^^ Suc j) w) - s < T" by (simp add: funpow_swap1)
      with less.prems obtain b b' where
        "disk ((tick e I ^^ Suc j) w) p = Some b" "disk ((tick e I ^^ Suc (Suc j)) w) p = Some b'"
        "length b' \<noteq> length b" by blast
      then show "\<exists>b b'. disk ((tick e I ^^ j) ?w1) p = Some b \<and> disk ((tick e I ^^ Suc j) ?w1) p = Some b'
                  \<and> length b' \<noteq> length b"
        by (simp add: funpow_swap1)
    qed
    from less.hyps[OF dec traj] obtain n where n:
      "wait_loop e p T I s ?w1 = Some (Inr False, (tick e I ^^ n) ?w1)"
      "T \<le> clock ((tick e I ^^ n) ?w1) - s"
      "n = 0 \<or> clock ((tick e I ^^ n) ?w1) - s < T + I"
      by blast
    from less.prems[rule_format, of 0] True obtain b b' where
      b: "disk w p = Some b" "disk ?w1 p = Some b'" "length b' \<noteq> length b" by auto
    have "wait_loop e p T I s w = wait_loop e p T I s ?w1"
      using True assms(1) b by (subst wait_loop.simps) (simp add: sleep_def getsize_def)
    with n(1) have 1: "wait_loop e p T I s w = Some (Inr False, (tick e I ^^ Suc n) w)"
      by (simp add: funpow_swap1)
    from n(2) have 2: "T \<le> clock ((tick e I ^^ Suc n) w) - s" by (simp add: funpow_swap1)
    from n(3) True have 3: "clock ((tick e I ^^ Suc n) w) - s < T + I"
      by (auto simp add: funpow_swap1 tick_clock)
    from 1 2 3 show ?thesis by blast
  qed
qed

lemma wait_loop_frame_aux:
  assumes "wait_loop e p T I s w = Some y"
  shows "state_file (snd y) = state_file w \<and> (\<exists>n. trace (snd y) = trace w @ replicate n (Slept I))"
  using assms
proof (induction e p T I s w y rule: wait_loop.raw_induct[rotated 1, consumes 1])
  case (1 loop e p T I s w y)
  have step: "state_file (snd y) = state_file w \<and> (\<exists>n. trace (snd y) = trace w @ replicate n (Slept I))"
    if "loop e p T I s (tick e I w) = Some y"
  proof -
    from "1.IH"[OF that] obtain n where
      "state_file (snd y) = state_file (tick e I w)"
      "trace (snd y) = trace (tick e I w) @ replicate n (Slept I)"
      by blast
    then have "state_file (snd y) = state_file w" "trace (snd y) = trace w @ replicate (Suc n) (Slept I)"
      by (simp_all add: tick_state_file tick_trace replicate_append_same)
    then show ?thesis by blast
  qed
  have one: "\<exists>n. trace (tick e I w) = trace w @ replicate n (Slept I)"
    by (rule exI[of _ 1]) (simp add: tick_trace)
  have zero: "\<exists>n. trace w = trace w @ replicate n (Slept I)"
    by (rule exI[of _ 0]) simp
  from "1.hyps" show ?case
    using step one zero
    by (auto simp: sleep_def getsize_def tick_state_file split: if_splits option.splits sum.splits)
qed

lemma wait_for_download_frame:
  assumes "wait_for_download e p T I w = Some (r, w1)"
  shows "state_file w1 = state_file w" and "\<exists>n. trace w1 = trace w @ replicate n (Slept I)"
  using wait_loop_frame_aux[of e p T I "clock w" w "(r, w1)"] assms
  by (simp_all add: wait_for_download_def)

lemma run_checked_frame:
  assumes "run_checked e argv w = (r, w1)"
  shows "state_file w1 = state_file w" and "trace w1 = trace w @ [Ran argv]"
  using assms
  by (auto simp: run_checked_def Let_def split: prod.splits sum.splits if_splits)

lemma extract_audio_frame:
  assumes "extract_audio e fp w = (r, w1)"
  shows "state_file w1 = state_file w"
    and "trace w1 = trace w \<or> (\<exists>argv. trace w1 = trace w @ [Ran argv])"
proof -
  show "state_file w1 = state_file w"
    using assms
    by (auto simp: extract_audio_def Let_def dest: run_checked_frame(1)
             split: sum.splits if_splits prod.splits)
  show "trace w1 = trace w \<or> (\<exists>argv. trace w1 = trace w @ [Ran argv])"
    using assms
    by (auto simp: extract_audio_def Let_def dest: run_checked_frame(2)
             split: sum.splits if_splits prod.splits)
qed

lemma transcribe_frame:
  assumes "transcribe model a w = (r, w1)"
  shows "state_file w1 = state_file w" and "trace w1 = trace w @ [Transcribed a]"
    and "disk w1 = disk w" and "r = model w a"
  using assms by (auto simp: transcribe_def)

lemma write_text_cases:
  assumes "write_text e t s w = (r, w1)"
  shows "state_file w1 = state_file w"
    and "(\<exists>x. r = Inl x \<and> trace w1 = trace w)
       \<or> (\<exists>x. r = Inl x \<and> trace w1 = trace w @ [Opened t])
       \<or> (r = Inr () \<and> trace w1 = trace w @ [Opened t, Wrote t (utf8 s)]
            \<and> disk w1 t = Some (utf8 s))"
  using assms
  by (auto simp: write_text_def Let_def split: option.splits)

lemma save_processed_files_cases:
  assumes "save_processed_files e ps w = (r, w1)"
  shows "disk w1 = disk w"
    and "(\<exists>x. r = Inl x \<and> trace w1 = trace w
              \<and> (state_file w1 = state_file w \<or> state_file w1 = Corrupt))
       \<or> (r = Inr () \<and> trace w1 = trace w @ [Saved ps] \<and> state_file w1 = Holds ps)"
  using assms
  by (auto simp: save_processed_files_def split: option.splits)

lemma record_entry_frame:
  assumes "record_entry k v ps w = (ps', w1)"
  shows "ps' = AList.update k v ps" and "trace w1 = trace w @ [Recorded k v]"
    and "state_file w1 = state_file w" and "disk w1 = disk w"
  using assms by (auto simp: record_entry_def)

subsection \<open>The runs of the orchestrator\<close>

lemma transcribe_file_cases:
  assumes "p \<notin> fst ` set ps" and "transcribe_file e p model ps w = Some (r, ps', w')"
  obtains
    (wait_raised) x where
      "wait_for_download e p 900 5 w = Some (Inl x, w')" "r = Inl x" "ps' = ps"
  | (not_ready)
      "wait_for_download e p 900 5 w = Some (Inr False, w')" "r = Inr ()" "ps' = ps"
  | (extract_raised) w1 x where
      "wait_for_download e p 900 5 w = Some (Inr True, w1)"
      "extract_audio e (Path p) w1 = (Inl x, w')" "r = Inl x" "ps' = ps"
  | (model_raised) w1 a w2 x where
      "wait_for_download e p 900 5 w = Some (Inr True, w1)"
      "extract_audio e (Path p) w1 = (Inr a, w2)"
      "transcribe model (path_str a) w2 = (Inl x, w')" "r = Inl x" "ps' = ps"
  | (suffix_raised) w1 a w2 res x where
      "wait_for_download e p 900 5 w = Some (Inr True, w1)"
      "extract_audio e (Path p) w1 = (Inr a, w2)"
      "transcribe model (path_str a) w2 = (Inr res, w')"
      "with_suffix (Path p) ''.txt'' = Inl x" "r = Inl x" "ps' = ps"
  | (write_raised) w1 a w2 res w3 t x where
      "wait_for_download e p 900 5 w = Some (Inr True, w1)"
      "extract_audio e (Path p) w1 = (Inr a, w2)"
      "transcribe model (path_str a) w2 = (Inr res, w3)"
      "with_suffix (Path p) ''.txt'' = Inr t"
      "write_text e (path_str t) (text_of res) w3 = (Inl x, w')" "r = Inl x" "ps' = ps"
  | (saved) w1 a w2 res w3 t w4 w5 where
      "wait_for_download e p 900 5 w = Some (Inr True, w1)"
      "extract_audio e (Path p) w1 = (Inr a, w2)"
      "transcribe model (path_str a) w2 = (Inr res, w3)"
      "with_suffix (Path p) ''.txt'' = Inr t"
      "write_text e (path_str t) (text_of res) w3 = (Inr (), w4)"
      "record_entry p (name t) ps w4 = (ps', w5)"
      "save_processed_files e ps' w5 = (r, w')"
  using assms unfolding transcribe_file_def
  by (auto split: option.splits sum.splits prod.splits if_splits)

text \<open>Nothing persists before the transcript is opened: neither the wait nor the extraction
  nor the transcription call adds a persisting event or touches the state file.\<close>

lemma prelude_quiet:
  assumes "wait_for_download e p 900 5 w = Some (Inr True, w1)"
    and "extract_audio e (Path p) w1 = (ra, w2)"
  shows "\<exists>pre. trace w2 = trace w @ pre \<and> filter persisting pre = []"
    and "state_file w2 = state_file w"
proof -
  from wait_for_download_frame[OF assms(1)] obtain n where
    w1: "state_file w1 = state_file w" "trace w1 = trace w @ replicate n (Slept 5)" by blast
  from extract_audio_frame[OF assms(2)] have
    w2: "state_file w2 = state_file w1"
      "trace w2 = trace w1 \<or> (\<exists>argv. trace w2 = trace w1 @ [Ran argv])" by blast+
  from w1 w2 show "state_file w2 = state_file w" by simp
  from w2(2) show "\<exists>pre. trace w2 = trace w @ pre \<and> filter persisting pre = []"
  proof
    assume "trace w2 = trace w1"
    with w1 have "trace w2 = trace w @ replicate n (Slept 5) \<and> filter persisting (replicate n (Slept 5)) = []"
      by simp
    then show ?thesis by blast
  next
    assume "\<exists>argv. trace w2 = trace w1 @ [Ran argv]"
    then obtain argv where "trace w2 = trace w1 @ [Ran argv]" by blast
    with w1 have "trace w2 = trace w @ (replicate n (Slept 5) @ [Ran argv])
       \<and> filter persisting (replicate n (Slept 5) @ [Ran argv]) = []"
      by simp
    then show ?thesis by blast
  qed
qed

lemma prelude_transcribed:
  assumes "wait_for_download e p 900 5 w = Some (Inr True, w1)"
    and "extract_audio e (Path p) w1 = (Inr a, w2)"
    and "transcribe model (path_str a) w2 = (rm, w3)"
  shows "\<exists>pre. trace w3 = trace w @ pre \<and> filter persisting pre = []"
    and "state_file w3 = state_file w"
proof -
  from prelude_quiet[OF assms(1,2)] obtain pre where
    pre: "trace w2 = trace w @ pre" "filter persisting pre = []" and st: "state_file w2 = state_file w"
    by blast
  from transcribe_frame[OF assms(3)] have
    w3: "state_file w3 = state_file w2" "trace w3 = trace w2 @ [Transcribed (path_str a)]" by blast+
  from st w3 show "state_file w3 = state_file w" by simp
  from pre w3 have "trace w3 = trace w @ (pre @ [Transcribed (path_str a)])
      \<and> filter persisting (pre @ [Transcribed (path_str a)]) = []" by simp
  then show "\<exists>pre. trace w3 = trace w @ pre \<and> filter persisting pre = []" by blast
qed

lemma transcribe_file_outcome:
  assumes "p \<notin> fst ` set ps" and "transcribe_file e p model ps w = Some (r, ps', w')"
  shows "\<exists>pre fin. trace w' = trace w @ pre @ fin \<and> filter persisting pre = [] \<and>
     ((fin = [] \<and> ps' = ps \<and> state_file w' = state_file w)
    \<or> (\<exists>t x. fin = [Opened t] \<and> r = Inl x \<and> ps' = ps \<and> state_file w' = state_file w)
    \<or> (\<exists>t b n x. fin = [Opened t, Wrote t b, Recorded p n] \<and> r = Inl x
          \<and> ps' = AList.update p n ps \<and> disk w' t = Some b
          \<and> (state_file w' = state_file w \<or> state_file w' = Corrupt))
    \<or> (\<exists>t b n. fin = [Opened t, Wrote t b, Recorded p n, Saved ps'] \<and> r = Inr ()
          \<and> ps' = AList.update p n ps \<and> disk w' t = Some b \<and> state_file w' = Holds ps'))"
  (is "\<exists>pre fin. ?Q pre fin")
  using assms
proof (cases rule: transcribe_file_cases)
  case (wait_raised x)
  from wait_for_download_frame[OF wait_raised(1)] obtain n where
    "state_file w' = state_file w" "trace w' = trace w @ replicate n (Slept 5)" by blast
  with wait_raised have "?Q (replicate n (Slept 5)) []" by simp
  then show ?thesis by blast
next
  case not_ready
  from wait_for_download_frame[OF not_ready(1)] obtain n where
    "state_file w' = state_file w" "trace w' = trace w @ replicate n (Slept 5)" by blast
  with not_ready have "?Q (replicate n (Slept 5)) []" by simp
  then show ?thesis by blast
next
  case (extract_raised w1 x)
  from prelude_quiet[OF extract_raised(1,2)] obtain pre where
    "trace w' = trace w @ pre" "filter persisting pre = []" "state_file w' = state_file w"
    by blast
  with extract_raised have "?Q pre []" by simp
  then show ?thesis by blast
next
  case (model_raised w1 a w2 x)
  from prelude_transcribed[OF model_raised(1,2,3)] obtain pre where
    "trace w' = trace w @ pre" "filter persisting pre = []" "state_file w' = state_file w"
    by blast
  with model_raised have "?Q pre []" by simp
  then show ?thesis by blast
next
  case (suffix_raised w1 a w2 res x)
  from prelude_transcribed[OF suffix_raised(1,2,3)] obtain pre where
    "trace w' = trace w @ pre" "filter persisting pre = []" "state_file w' = state_file w"
    by blast
  with suffix_raised have "?Q pre []" by simp
  then show ?thesis by blast
next
  case (write_raised w1 a w2 res w3 t x)
  from prelude_transcribed[OF write_raised(1,2,3)] obtain pre where
    pre: "trace w3 = trace w @ pre" "filter persisting pre = []" "state_file w3 = state_file w"
    by blast
  from write_text_cases[OF write_raised(5)] have st: "state_file w' = state_file w3"
    and tr: "trace w' = trace w3 \<or> trace w' = trace w3 @ [Opened (path_str t)]"
    by auto
  from tr show ?thesis
  proof
    assume "trace w' = trace w3"
    with pre st write_raised have "?Q pre []" by simp
    then show ?thesis by blast
  next
    assume "trace w' = trace w3 @ [Opened (path_str t)]"
    with pre st write_raised have "?Q pre [Opened (path_str t)]" by simp
    then show ?thesis by blast
  qed
next
  case (saved w1 a w2 res w3 t w4 w5)
  from prelude_transcribed[OF saved(1,2,3)] obtain pre where
    pre: "trace w3 = trace w @ pre" "filter persisting pre = []" "state_file w3 = state_file w"
    by blast
  let ?t = "path_str t" and ?b = "utf8 (text_of res)"
  from write_text_cases[OF saved(5)] have w4: "state_file w4 = state_file w3"
    "trace w4 = trace w3 @ [Opened ?t, Wrote ?t ?b]" "disk w4 ?t = Some ?b"
    by auto
  from record_entry_frame[OF saved(6)] have w5: "ps' = AList.update p (name t) ps"
    "trace w5 = trace w4 @ [Recorded p (name t)]" "state_file w5 = state_file w4"
    "disk w5 = disk w4" by blast+
  from save_processed_files_cases[OF saved(7)] have dk: "disk w' = disk w5"
    and sv: "(\<exists>x. r = Inl x \<and> trace w' = trace w5
              \<and> (state_file w' = state_file w5 \<or> state_file w' = Corrupt))
       \<or> (r = Inr () \<and> trace w' = trace w5 @ [Saved ps'] \<and> state_file w' = Holds ps')"
    by blast+
  from sv show ?thesis
  proof
    assume "\<exists>x. r = Inl x \<and> trace w' = trace w5
              \<and> (state_file w' = state_file w5 \<or> state_file w' = Corrupt)"
    with pre w4 w5 dk have "?Q pre [Opened ?t, Wrote ?t ?b, Recorded p (name t)]" by auto
    then show ?thesis by blast
  next
    assume "r = Inr () \<and> trace w' = trace w5 @ [Saved ps'] \<and> state_file w' = Holds ps'"
    with pre w4 w5 dk have "?Q pre [Opened ?t, Wrote ?t ?b, Recorded p (name t), Saved ps']" by auto
    then show ?thesis by blast
  qed
qed

lemma transcribe_file_returns: "\<exists>y. transcribe_file e p model ps w = Some y"
proof -
  obtain y where "wait_for_download e p 900 5 w = Some y"
    using wait_loop_total[of 5 e p 900 "clock w" w] by (auto simp: wait_for_download_def)
  then show ?thesis
    by (auto simp: transcribe_file_def split: sum.splits prod.splits)
qed

lemma update_fresh_entries:
  "p \<notin> fst ` set ps \<Longrightarrow> filter (\<lambda>kv. fst kv = p) (AList.update p n ps) = [(p, n)]"
  by (induction ps) auto

lemma quiet_has_no_write: "filter persisting evs = [] \<Longrightarrow> filter transcript_write evs = []"
proof -
  have "transcript_write ev \<Longrightarrow> persisting ev" for ev by (cases ev) simp_all
  then show "filter persisting evs = [] \<Longrightarrow> filter transcript_write evs = []"
    by (auto simp: filter_empty_conv)
qed

subsection \<open>A run in the quiet environment\<close>

lemma clip_ready:
  "wait_for_download quiet ''media/clip.mp3'' 900 5 desk = Some (Inr True, tick quiet 5 desk)"
  unfolding wait_for_download_def
  by (subst wait_loop.simps) (simp add: desk_def quiet_def sleep_def getsize_def tick_def)

lemma clip_paths:
  "Path ''media/clip.mp3'' = \<lparr>root = [], parts = [''media'', ''clip.mp3'']\<rparr>"
  "with_suffix \<lparr>root = [], parts = [''media'', ''clip.mp3'']\<rparr> ''.txt''
     = Inr \<lparr>root = [], parts = [''media'', ''clip.txt'']\<rparr>"
  "lower (suffix \<lparr>root = [], parts = [''media'', ''clip.mp3'']\<rparr>) = ''.mp3''"
  "path_str \<lparr>root = [], parts = [''media'', ''clip.mp3'']\<rparr> = ''media/clip.mp3''"
  "path_str \<lparr>root = [], parts = [''media'', ''clip.txt'']\<rparr> = ''media/clip.txt''"
  "name \<lparr>root = [], parts = [''media'', ''clip.txt'']\<rparr> = ''clip.txt''"
  "utf8 ''hello'' = ''hello''"
  by code_simp+

lemma quiet_simps:
  "open_error quiet w p = None" "write_error quiet w p = None"
  "elapse quiet t d files = files"
  "subprocess quiet w argv = (Inr 0, (disk w)(last argv \<mapsto> ''RIFF''))"
  by (simp_all add: quiet_def)

lemma clip_run:
  "transcribe_file quiet ''media/clip.mp3'' speech [] desk =
     Some (Inr (), [(''media/clip.mp3'', ''clip.txt'')], desk_done)"
  apply (simp add: transcribe_file_def clip_ready extract_audio_def clip_paths
       video_suffixes_def transcribe_def speech_def write_text_def record_entry_def
       save_processed_files_def quiet_simps)
  apply (simp add: tick_def desk_def desk_done_def quiet_simps)
  done

section \<open>Idempotence of the orchestrator\<close>

text \<open>
  C1. For a path that is already a key of the processed set, \<open>transcribe_file\<close> returns at
  once and changes nothing: the clock has not moved (no readiness wait), the trace has no
  new event (no extraction, no transcription, no write, no save), and the processed set,
  the media tree and the state file are as before. Hence when a first call on an
  unprocessed path returns with the path recorded, a second call is such a no-op, the two
  calls together have completed exactly one transcript write, and the processed set has
  exactly one entry for the path.
\<close>

theorem transcribe_file_processed_noop:
  "(p \<in> fst ` set ps \<longrightarrow> transcribe_file e p model ps w = Some (Inr (), ps, w))
   \<and> (p \<notin> fst ` set ps \<and> transcribe_file e p model ps w = Some (Inr (), ps1, w1)
        \<and> p \<in> fst ` set ps1 \<longrightarrow>
        transcribe_file e p model ps1 w1 = Some (Inr (), ps1, w1)
        \<and> length (filter transcript_write (trace w1))
            = Suc (length (filter transcript_write (trace w)))
        \<and> length (filter (\<lambda>kv. fst kv = p) ps1) = 1)"
proof (intro conjI impI)
  assume "p \<in> fst ` set ps"
  then show "transcribe_file e p model ps w = Some (Inr (), ps, w)"
    by (simp add: transcribe_file_def)
next
  assume a: "p \<notin> fst ` set ps \<and> transcribe_file e p model ps w = Some (Inr (), ps1, w1)
        \<and> p \<in> fst ` set ps1"
  then show "transcribe_file e p model ps1 w1 = Some (Inr (), ps1, w1)"
    by (simp add: transcribe_file_def)
  from a have fresh: "p \<notin> fst ` set ps" and changed: "ps1 \<noteq> ps" by auto
  from transcribe_file_outcome[OF fresh] a changed obtain pre t b n where
    run: "trace w1 = trace w @ pre @ [Opened t, Wrote t b, Recorded p n, Saved ps1]"
      "filter persisting pre = []" "ps1 = AList.update p n ps"
    by blast
  from run(1) quiet_has_no_write[OF run(2)]
  show "length (filter transcript_write (trace w1))
            = Suc (length (filter transcript_write (trace w)))"
    by simp
  from run(3) update_fresh_entries[OF fresh]
  show "length (filter (\<lambda>kv. fst kv = p) ps1) = 1" by simp
qed

theorem transcribe_file_processed_noop_witness:
  "transcribe_file quiet ''media/clip.mp3'' speech [(''media/clip.mp3'', ''clip.txt'')] desk
      = Some (Inr (), [(''media/clip.mp3'', ''clip.txt'')], desk)
   \<and> transcribe_file quiet ''media/clip.mp3'' speech [] desk
      = Some (Inr (), [(''media/clip.mp3'', ''clip.txt'')], desk_done)
   \<and> transcribe_file quiet ''media/clip.mp3'' speech [(''media/clip.mp3'', ''clip.txt'')] desk_done
      = Some (Inr (), [(''media/clip.mp3'', ''clip.txt'')], desk_done)
   \<and> length (filter transcript_write (trace desk_done))
        = Suc (length (filter transcript_write (trace desk)))
   \<and> length (filter (\<lambda>kv. fst kv = ''media/clip.mp3'') [(''media/clip.mp3'', ''clip.txt'')]) = 1"
  using transcribe_file_processed_noop[of "''media/clip.mp3''"
          "[(''media/clip.mp3'', ''clip.txt'')]" quiet speech desk]
        transcribe_file_processed_noop[of "''media/clip.mp3''" "[]" quiet speech desk
          "[(''media/clip.mp3'', ''clip.txt'')]" desk_done]
        clip_run
  by simp

section \<open>Order of the persisting effects\<close>

text \<open>
  C2. A call of \<open>transcribe_file\<close> on an unprocessed path returns, and the events it adds
  to the trace are some that persist nothing (sleeps, the extraction, the transcription)
  followed by an initial part of: transcript opened, transcript written, entry recorded,
  mapping saved. The entry is recorded only after the write has completed, the mapping is
  saved right after the entry is recorded, and the call returns normally with a changed
  processed set only when all four have happened, the state file then holding the new
  mapping. When the write did not complete, the processed set and the state file are as
  before.
\<close>

theorem transcribe_file_effect_order:
  assumes "p \<notin> fst ` set ps"
  shows "\<exists>r ps' w' pre fin.
      transcribe_file e p model ps w = Some (r, ps', w')
    \<and> trace w' = trace w @ pre @ fin \<and> filter persisting pre = []
    \<and> ((fin = [] \<and> ps' = ps \<and> state_file w' = state_file w)
      \<or> (\<exists>t x. fin = [Opened t] \<and> r = Inl x \<and> ps' = ps \<and> state_file w' = state_file w)
      \<or> (\<exists>t b n x. fin = [Opened t, Wrote t b, Recorded p n] \<and> r = Inl x
            \<and> ps' = AList.update p n ps \<and> disk w' t = Some b
            \<and> (state_file w' = state_file w \<or> state_file w' = Corrupt))
      \<or> (\<exists>t b n. fin = [Opened t, Wrote t b, Recorded p n, Saved ps'] \<and> r = Inr ()
            \<and> ps' = AList.update p n ps \<and> disk w' t = Some b
            \<and> state_file w' = Holds ps'))"
proof -
  from transcribe_file_returns obtain r ps' w' where
    run: "transcribe_file e p model ps w = Some (r, ps', w')"
    by (metis prod_cases3)
  from transcribe_file_outcome[OF assms run] run show ?thesis by blast
qed

theorem transcribe_file_effect_order_witness:
  "transcribe_file quiet ''media/clip.mp3'' speech [] desk
      = Some (Inr (), [(''media/clip.mp3'', ''clip.txt'')], desk_done)
   \<and> (\<exists>pre. trace desk_done = trace desk @ pre
          @ [Opened ''media/clip.txt'', Wrote ''media/clip.txt'' ''hello'',
             Recorded ''media/clip.mp3'' ''clip.txt'',
             Saved [(''media/clip.mp3'', ''clip.txt'')]]
        \<and> filter persisting pre = [])
   \<and> state_file desk_done = Holds [(''media/clip.mp3'', ''clip.txt'')]"
proof -
  have fresh: "''media/clip.mp3'' \<notin> fst ` set ([] :: pset)" by simp
  from transcribe_file_effect_order[OF fresh, of quiet speech desk] clip_run
  obtain pre fin where
    tr: "trace desk_done = trace desk @ pre @ fin" "filter persisting pre = []"
    and fin: "\<exists>t b n. fin = [Opened t, Wrote t b, Recorded ''media/clip.mp3'' n,
                             Saved [(''media/clip.mp3'', ''clip.txt'')]]"
    by auto
  from fin obtain t b n where
    f: "fin = [Opened t, Wrote t b, Recorded ''media/clip.mp3'' n,
               Saved [(''media/clip.mp3'', ''clip.txt'')]]" by blast
  from tr(1) f have "fin = [Opened ''media/clip.txt'', Wrote ''media/clip.txt'' ''hello'',
             Recorded ''media/clip.mp3'' ''clip.txt'',
             Saved [(''media/clip.mp3'', ''clip.txt'')]]"
    by (auto simp add: desk_done_def desk_def append_eq_append_conv2 Cons_eq_append_conv)
  with tr clip_run show ?thesis by (auto simp: desk_done_def)
qed

section \<open>Readiness detection: timing\<close>

lemma quiet_ticks_disk: "disk ((tick quiet d ^^ j) w) = disk w"
  by (induction j) (simp_all add: tick_def quiet_def)

lemma growing_ticks_disk:
  "disk w p = Some b \<Longrightarrow> disk ((tick growing d ^^ j) w) p = Some (b @ replicate j CHR ''x'')"
  by (induction j) (simp_all add: tick_def growing_def replicate_append_same)

text \<open>
  C3. With timeout \<open>T\<close> and poll interval \<open>I\<close>, on the clock that only sleeping advances:
  when the path exists at the first check and has the same size one poll interval later,
  \<open>wait_for_download\<close> returns true after exactly one poll interval, whatever the timeout
  \<open>T > 0\<close>; when the path exists with a different size at each next sample as long as the
  timeout has not elapsed, it returns false at an elapsed time in \<open>[T, T + I)\<close>; and while
  the path does not exist, each iteration sleeps one poll interval and the loop goes on
  from there, so that after \<open>k\<close> such iterations \<open>k * I\<close> seconds have elapsed.
\<close>

theorem wait_for_download_readiness:
  "(0 < T \<and> 0 \<le> I
      \<and> (\<exists>b b'. disk w p = Some b \<and> disk (tick e I w) p = Some b' \<and> length b' = length b)
      \<longrightarrow> wait_for_download e p T I w = Some (Inr True, tick e I w)
          \<and> clock (tick e I w) - clock w = I)
   \<and> (0 \<le> T \<and> 0 < I
      \<and> (\<forall>j. int j * I < T \<longrightarrow>
            (\<exists>b b'. disk ((tick e I ^^ j) w) p = Some b
                  \<and> disk ((tick e I ^^ Suc j) w) p = Some b' \<and> length b' \<noteq> length b))
      \<longrightarrow> (\<exists>w'. wait_for_download e p T I w = Some (Inr False, w')
                \<and> T \<le> clock w' - clock w \<and> clock w' - clock w < T + I))
   \<and> (0 \<le> I \<and> (\<forall>j<k. int j * I < T \<and> disk ((tick e I ^^ j) w) p = None)
      \<longrightarrow> wait_for_download e p T I w = wait_loop e p T I (clock w) ((tick e I ^^ k) w)
          \<and> clock ((tick e I ^^ k) w) - clock w = int k * I)"
proof (intro conjI impI)
  assume a: "0 < T \<and> 0 \<le> I
      \<and> (\<exists>b b'. disk w p = Some b \<and> disk (tick e I w) p = Some b' \<and> length b' = length b)"
  then obtain b b' where
    d: "disk w p = Some b" "disk (tick e I w) p = Some b'" "length b' = length b"
    by blast
  from a have "clock w - clock w < T" "0 \<le> I" by simp_all
  from wait_loop_static[OF this d]
  show "wait_for_download e p T I w = Some (Inr True, tick e I w)"
    unfolding wait_for_download_def .
  show "clock (tick e I w) - clock w = I" by (simp add: tick_clock)
next
  assume a: "0 \<le> T \<and> 0 < I
      \<and> (\<forall>j. int j * I < T \<longrightarrow>
            (\<exists>b b'. disk ((tick e I ^^ j) w) p = Some b
                  \<and> disk ((tick e I ^^ Suc j) w) p = Some b' \<and> length b' \<noteq> length b))"
  then have "\<forall>j. clock ((tick e I ^^ j) w) - clock w < T \<longrightarrow>
           (\<exists>b b'. disk ((tick e I ^^ j) w) p = Some b \<and> disk ((tick e I ^^ Suc j) w) p = Some b'
                  \<and> length b' \<noteq> length b)"
    by (simp add: ticks_clock)
  from wait_loop_growing[OF _ this] a obtain n where
    n: "wait_loop e p T I (clock w) w = Some (Inr False, (tick e I ^^ n) w)"
       "T \<le> clock ((tick e I ^^ n) w) - clock w"
       "n = 0 \<or> clock ((tick e I ^^ n) w) - clock w < T + I"
    by blast
  from n(3) a have "clock ((tick e I ^^ n) w) - clock w < T + I" by auto
  with n(1,2) show "\<exists>w'. wait_for_download e p T I w = Some (Inr False, w')
                \<and> T \<le> clock w' - clock w \<and> clock w' - clock w < T + I"
    unfolding wait_for_download_def by blast
next
  assume a: "0 \<le> I \<and> (\<forall>j<k. int j * I < T \<and> disk ((tick e I ^^ j) w) p = None)"
  then have "\<forall>j<k. clock ((tick e I ^^ j) w) - clock w < T \<and> disk ((tick e I ^^ j) w) p = None"
    by (simp add: ticks_clock)
  from wait_loop_absent[OF _ this] a
  show "wait_for_download e p T I w = wait_loop e p T I (clock w) ((tick e I ^^ k) w)"
    unfolding wait_for_download_def by blast
  show "clock ((tick e I ^^ k) w) - clock w = int k * I" by (simp add: ticks_clock)
qed

theorem wait_for_download_readiness_witness:
  "wait_for_download quiet ''media/clip.mp3'' 900 5 desk = Some (Inr True, tick quiet 5 desk)
   \<and> clock (tick quiet 5 desk) - clock desk = 5
   \<and> (\<exists>w'. wait_for_download growing ''media/clip.mp3'' 10 5 desk = Some (Inr False, w')
          \<and> 10 \<le> clock w' - clock desk \<and> clock w' - clock desk < 10 + 5)
   \<and> wait_for_download quiet ''media/late.mp3'' 10 5 desk
        = wait_loop quiet ''media/late.mp3'' 10 5 (clock desk) ((tick quiet 5 ^^ 2) desk)
   \<and> clock ((tick quiet 5 ^^ 2) desk) - clock desk = int 2 * 5"
proof -
  have clip: "disk desk ''media/clip.mp3'' = Some ''abc''" by (simp add: desk_def)
  have late: "disk desk ''media/late.mp3'' = None" by (simp add: desk_def)
  have h1: "0 < (900::int) \<and> 0 \<le> (5::int)
      \<and> (\<exists>b b'. disk desk ''media/clip.mp3'' = Some b
            \<and> disk (tick quiet 5 desk) ''media/clip.mp3'' = Some b' \<and> length b' = length b)"
    using clip by (simp add: tick_def quiet_def)
  have h2: "0 \<le> (10::int) \<and> 0 < (5::int)
      \<and> (\<forall>j. int j * 5 < 10 \<longrightarrow>
            (\<exists>b b'. disk ((tick growing 5 ^^ j) desk) ''media/clip.mp3'' = Some b
                  \<and> disk ((tick growing 5 ^^ Suc j) desk) ''media/clip.mp3'' = Some b'
                  \<and> length b' \<noteq> length b))"
  proof -
    have g: "disk ((tick growing 5 ^^ j) desk) ''media/clip.mp3'' = Some (''abc'' @ replicate j CHR ''x'')"
      for j by (rule growing_ticks_disk[OF clip])
    have "\<exists>b b'. disk ((tick growing 5 ^^ j) desk) ''media/clip.mp3'' = Some b
                  \<and> disk ((tick growing 5 ^^ Suc j) desk) ''media/clip.mp3'' = Some b'
                  \<and> length b' \<noteq> length b" for j
      using g[of j] g[of "Suc j"] by (intro exI[of _ "''abc'' @ replicate j CHR ''x''"]
          exI[of _ "''abc'' @ replicate (Suc j) CHR ''x''"]) simp
    then show ?thesis by simp
  qed
  have h3: "0 \<le> (5::int) \<and> (\<forall>j<2. int j * 5 < 10
      \<and> disk ((tick quiet 5 ^^ j) desk) ''media/late.mp3'' = None)"
    using late by (auto simp: quiet_ticks_disk)
  from wait_for_download_readiness[of 900 5 desk "''media/clip.mp3''" quiet] h1
  have 1: "wait_for_download quiet ''media/clip.mp3'' 900 5 desk = Some (Inr True, tick quiet 5 desk)
      \<and> clock (tick quiet 5 desk) - clock desk = 5" by blast
  from wait_for_download_readiness[of 10 5 desk "''media/clip.mp3''" growing] h2
  have 2: "\<exists>w'. wait_for_download growing ''media/clip.mp3'' 10 5 desk = Some (Inr False, w')
          \<and> 10 \<le> clock w' - clock desk \<and> clock w' - clock desk < 10 + 5" by blast
  from wait_for_download_readiness[of 10 5 desk "''media/late.mp3''" quiet 2] h3
  have 3: "wait_for_download quiet ''media/late.mp3'' 10 5 desk
        = wait_loop quiet ''media/late.mp3'' 10 5 (clock desk) ((tick quiet 5 ^^ 2) desk)
   \<and> clock ((tick quiet 5 ^^ 2) desk) - clock desk = int 2 * 5" by blast
  from 1 2 3 show ?thesis by blast
qed

section \<open>Loading the processed set\<close>

text \<open>
  C4, as the code has it. \<open>load_processed_files\<close> returns the empty mapping when there is
  no state file and the stored mapping when the file holds one. When the file is there
  but cannot be opened, or its content is not a JSON document, nothing catches the
  exception of \<open>open\<close> or \<open>json.load\<close>: it reaches the caller.
\<close>

theorem load_processed_files_cases:
  "(state_file w = Absent \<longrightarrow> load_processed_files w = Inr [])
   \<and> (state_file w = Holds ps \<longrightarrow> load_processed_files w = Inr ps)
   \<and> (state_file w = Unreadable \<longrightarrow> load_processed_files w = Inl OSError)
   \<and> (state_file w = Corrupt \<longrightarrow> load_processed_files w = Inl JSONDecodeError)"
  by (simp add: load_processed_files_def)

theorem load_processed_files_cases_witness:
  "load_processed_files desk = Inr []
   \<and> load_processed_files desk_done = Inr [(''media/clip.mp3'', ''clip.txt'')]
   \<and> load_processed_files (desk\<lparr>state_file := Unreadable\<rparr>) = Inl OSError
   \<and> load_processed_files (desk\<lparr>state_file := Corrupt\<rparr>) = Inl JSONDecodeError"
  using load_processed_files_cases[of desk "[]"]
    load_processed_files_cases[of desk_done "[(''media/clip.mp3'', ''clip.txt'')]"]
    load_processed_files_cases[of "desk\<lparr>state_file := Unreadable\<rparr>" "[]"]
    load_processed_files_cases[of "desk\<lparr>state_file := Corrupt\<rparr>" "[]"]
  by (simp add: desk_def desk_done_def)

text \<open>
  C4 as the specification states it does not hold: on a state file whose content is not
  a JSON document the call raises instead of returning the empty mapping.
\<close>

theorem load_processed_files_corrupt_raises:
  "load_processed_files (desk\<lparr>state_file := Corrupt\<rparr>) = Inl JSONDecodeError
   \<and> load_processed_files (desk\<lparr>state_file := Corrupt\<rparr>) \<noteq> Inr []"
  by (simp add: load_processed_files_def)

section \<open>Failures of extraction and transcription\<close>

lemma video_ready:
  "wait_for_download failing_tool ''media/video.mp4'' 900 5 desk
     = Some (Inr True, tick failing_tool 5 desk)"
  unfolding wait_for_download_def
  by (subst wait_loop.simps)
     (simp add: desk_def failing_tool_def quiet_def sleep_def getsize_def tick_def)

lemma video_paths:
  "Path ''media/video.mp4'' = \<lparr>root = [], parts = [''media'', ''video.mp4'']\<rparr>"
  "with_suffix \<lparr>root = [], parts = [''media'', ''video.mp4'']\<rparr> ''.wav''
     = Inr \<lparr>root = [], parts = [''media'', ''video.wav'']\<rparr>"
  "with_suffix \<lparr>root = [], parts = [''media'', ''video.mp4'']\<rparr> ''.txt''
     = Inr \<lparr>root = [], parts = [''media'', ''video.txt'']\<rparr>"
  "lower (suffix \<lparr>root = [], parts = [''media'', ''video.mp4'']\<rparr>) = ''.mp4''"
  "path_str \<lparr>root = [], parts = [''media'', ''video.mp4'']\<rparr> = ''media/video.mp4''"
  "path_str \<lparr>root = [], parts = [''media'', ''video.wav'']\<rparr> = ''media/video.wav''"
  "path_str \<lparr>root = [], parts = [''media'', ''video.txt'']\<rparr> = ''media/video.txt''"
  "name \<lparr>root = [], parts = [''media'', ''video.txt'']\<rparr> = ''video.txt''"
  by code_simp+

lemma failing_tool_extract:
  "extract_audio failing_tool (Path ''media/video.mp4'') (tick failing_tool 5 desk)
     = (Inl (CalledProcessError 1),
        tick failing_tool 5 desk
          \<lparr>trace := [Slept 5, Ran [''ffmpeg'', ''-i'', ''media/video.mp4'', ''media/video.wav'']]\<rparr>)"
  by (simp add: extract_audio_def video_paths video_suffixes_def run_checked_def
        failing_tool_def quiet_def tick_def desk_def Let_def)

lemma quiet_clip_extract:
  "extract_audio quiet (Path ''media/clip.mp3'') (tick quiet 5 desk)
     = (Inr (Path ''media/clip.mp3''), tick quiet 5 desk)"
  by (simp add: extract_audio_def clip_paths video_suffixes_def)

text \<open>
  C5. On an unprocessed path that the readiness wait has found stable: an exception of
  \<open>extract_audio\<close> leaves \<open>transcribe_file\<close> as that same exception, and so does an
  exception of the transcription call; in both cases the processed set and the state
  file are as they were before the call and no persisting event has happened (nothing
  opened, written, recorded or saved). A nonzero exit status of the extraction tool is
  such an exception of \<open>extract_audio\<close>.
\<close>

theorem transcribe_file_failure_propagates:
  assumes "p \<notin> fst ` set ps"
    and "wait_for_download e p 900 5 w = Some (Inr True, w1)"
  shows "(extract_audio e (Path p) w1 = (Inl x, w2) \<longrightarrow>
            transcribe_file e p model ps w = Some (Inl x, ps, w2)
          \<and> state_file w2 = state_file w
          \<and> (\<exists>pre. trace w2 = trace w @ pre \<and> filter persisting pre = []))
       \<and> (extract_audio e (Path p) w1 = (Inr a, w2) \<and> model w2 (path_str a) = Inl x \<longrightarrow>
            (\<exists>w3. transcribe_file e p model ps w = Some (Inl x, ps, w3)
              \<and> state_file w3 = state_file w
              \<and> (\<exists>pre. trace w3 = trace w @ pre \<and> filter persisting pre = [])))
       \<and> (lower (suffix fp) \<in> video_suffixes \<and> with_suffix fp ''.wav'' = Inr a
            \<and> disk v (path_str a) = None
            \<and> subprocess e v [''ffmpeg'', ''-i'', path_str fp, path_str a] = (Inr status, d)
            \<and> status \<noteq> 0 \<longrightarrow>
            fst (extract_audio e fp v) = Inl (CalledProcessError status))"
proof (intro conjI impI)
  assume ex: "extract_audio e (Path p) w1 = (Inl x, w2)"
  with assms show "transcribe_file e p model ps w = Some (Inl x, ps, w2)"
    by (simp add: transcribe_file_def)
  from prelude_quiet[OF assms(2) ex]
  show "state_file w2 = state_file w"
    and "\<exists>pre. trace w2 = trace w @ pre \<and> filter persisting pre = []" by blast+
next
  assume ex: "extract_audio e (Path p) w1 = (Inr a, w2) \<and> model w2 (path_str a) = Inl x"
  let ?w3 = "w2\<lparr>trace := trace w2 @ [Transcribed (path_str a)]\<rparr>"
  from ex have tr: "transcribe model (path_str a) w2 = (Inl x, ?w3)"
    by (simp add: transcribe_def)
  with assms ex have "transcribe_file e p model ps w = Some (Inl x, ps, ?w3)"
    by (simp add: transcribe_file_def)
  moreover from ex prelude_transcribed[OF assms(2) _ tr]
  have "state_file ?w3 = state_file w"
    "\<exists>pre. trace ?w3 = trace w @ pre \<and> filter persisting pre = []" by blast+
  ultimately show "\<exists>w3. transcribe_file e p model ps w = Some (Inl x, ps, w3)
              \<and> state_file w3 = state_file w
              \<and> (\<exists>pre. trace w3 = trace w @ pre \<and> filter persisting pre = [])" by blast
next
  assume "lower (suffix fp) \<in> video_suffixes \<and> with_suffix fp ''.wav'' = Inr a
            \<and> disk v (path_str a) = None
            \<and> subprocess e v [''ffmpeg'', ''-i'', path_str fp, path_str a] = (Inr status, d)
            \<and> status \<noteq> 0"
  then show "fst (extract_audio e fp v) = Inl (CalledProcessError status)"
    by (simp add: extract_audio_def run_checked_def)
qed

theorem transcribe_file_failure_propagates_witness:
  "transcribe_file failing_tool ''media/video.mp4'' speech [] desk
     = Some (Inl (CalledProcessError 1), [],
         tick failing_tool 5 desk
          \<lparr>trace := [Slept 5, Ran [''ffmpeg'', ''-i'', ''media/video.mp4'', ''media/video.wav'']]\<rparr>)
   \<and> (\<exists>w3. transcribe_file quiet ''media/clip.mp3'' deaf [] desk
               = Some (Inl (ExternalError ''no speech''), [], w3)
          \<and> state_file w3 = state_file desk)
   \<and> fst (extract_audio failing_tool \<lparr>root = [], parts = [''media'', ''video.mp4'']\<rparr> desk)
        = Inl (CalledProcessError 1)"
proof -
  have fresh: "p \<notin> fst ` set ([] :: pset)" for p :: string by simp
  let ?mp4 = "\<lparr>root = [], parts = [''media'', ''video.mp4'']\<rparr>"
  let ?wav = "\<lparr>root = [], parts = [''media'', ''video.wav'']\<rparr>"
  let ?w2 = "tick failing_tool 5 desk
          \<lparr>trace := [Slept 5, Ran [''ffmpeg'', ''-i'', ''media/video.mp4'', ''media/video.wav'']]\<rparr>"
  note a = transcribe_file_failure_propagates[OF fresh video_ready,
      where x = "CalledProcessError 1" and ?w2.0 = ?w2 and model = speech and a = ?wav
        and fp = ?mp4 and status = 1 and d = "disk desk" and v = desk]
  note b = transcribe_file_failure_propagates[OF fresh clip_ready,
      where x = "ExternalError ''no speech''" and ?w2.0 = "tick quiet 5 desk" and model = deaf
        and a = "Path ''media/clip.mp3''"
        and fp = ?mp4 and status = 1 and d = "disk desk" and v = desk]
  have h3: "lower (suffix ?mp4) \<in> video_suffixes \<and> with_suffix ?mp4 ''.wav'' = Inr ?wav
            \<and> disk desk (path_str ?wav) = None
            \<and> subprocess failing_tool desk [''ffmpeg'', ''-i'', path_str ?mp4, path_str ?wav]
                 = (Inr 1, disk desk)
            \<and> (1::int) \<noteq> 0"
    by (simp add: video_paths video_suffixes_def failing_tool_def desk_def)
  from a failing_tool_extract
  have 1: "transcribe_file failing_tool ''media/video.mp4'' speech [] desk
     = Some (Inl (CalledProcessError 1), [], ?w2)"
    by blast
  from b quiet_clip_extract
  have 2: "\<exists>w3. transcribe_file quiet ''media/clip.mp3'' deaf [] desk
               = Some (Inl (ExternalError ''no speech''), [], w3)
          \<and> state_file w3 = state_file desk"
    by (auto simp: deaf_def)
  from a h3 have 3: "fst (extract_audio failing_tool ?mp4 desk) = Inl (CalledProcessError 1)"
    by blast
  from 1 2 3 show ?thesis by blast
qed

section \<open>Facts about paths\<close>

lemma rfind_absent: "c \<notin> set s \<Longrightarrow> rfind c s = - 1"
  by (induction s) (auto simp: Let_def)

lemma rfind_last: "c \<notin> set ys \<Longrightarrow> rfind c (xs @ c # ys) = int (length xs)"
  by (induction xs) (auto simp: Let_def rfind_absent)

lemma rfind_bounds: "- 1 \<le> rfind c s \<and> rfind c s < int (length s)"
  by (induction s) (auto simp: Let_def)

lemma rfind_split:
  "0 \<le> rfind c s \<Longrightarrow>
     s = take (nat (rfind c s)) s @ c # drop (Suc (nat (rfind c s))) s
     \<and> c \<notin> set (drop (Suc (nat (rfind c s))) s)"
proof (induction s)
  case Nil
  then show ?case by simp
next
  case (Cons x xs)
  show ?case
  proof (cases "0 \<le> rfind c xs")
    case True
    with Cons.IH have "xs = take (nat (rfind c xs)) xs @ c # drop (Suc (nat (rfind c xs))) xs"
      "c \<notin> set (drop (Suc (nat (rfind c xs))) xs)" by simp_all
    moreover from True have "rfind c (x # xs) = rfind c xs + 1" by (simp add: Let_def)
    moreover from True have "nat (rfind c xs + 1) = Suc (nat (rfind c xs))" by simp
    ultimately show ?thesis by simp
  next
    case False
    with Cons.prems have xc: "x = c" and r0: "rfind c (x # xs) = 0"
      by (auto simp: Let_def split: if_splits)
    moreover have "c \<notin> set xs"
    proof
      assume "c \<in> set xs"
      then obtain ys zs where "xs = ys @ c # zs" "c \<notin> set zs"
        by (meson split_list_last)
      then have "rfind c xs = int (length ys)" using rfind_last by simp
      with False show False by simp
    qed
    ultimately show ?thesis by simp
  qed
qed

lemma name_decomposed: "name p = stem p @ suffix p"
  by (auto simp: suffix_def stem_def Let_def)

text \<open>A suffix, when there is one, starts with the last dot of the name and is more than the dot.\<close>

lemma suffix_shape:
  assumes "suffix p \<noteq> []"
  shows "\<exists>ext. suffix p = CHR ''.'' # ext \<and> ext \<noteq> [] \<and> CHR ''.'' \<notin> set ext
           \<and> name p = stem p @ suffix p \<and> stem p \<noteq> []"
proof -
  let ?n = "name p" and ?i = "rfind CHR ''.'' (name p)"
  from assms have c: "0 < ?i" "?i < int (length ?n) - 1"
    by (auto simp: suffix_def Let_def split: if_splits)
  then have sfx: "suffix p = drop (nat ?i) ?n" and st: "stem p = take (nat ?i) ?n"
    by (simp_all add: suffix_def stem_def Let_def)
  from c have "0 \<le> ?i" by simp
  from rfind_split[OF this] have
    sp: "?n = take (nat ?i) ?n @ CHR ''.'' # drop (Suc (nat ?i)) ?n"
    and nd: "CHR ''.'' \<notin> set (drop (Suc (nat ?i)) ?n)" by blast+
  from sp have "drop (nat ?i) ?n = CHR ''.'' # drop (Suc (nat ?i)) ?n"
    by (metis append_eq_conv_conj append_take_drop_id)
  moreover from c have "drop (Suc (nat ?i)) ?n \<noteq> []" by simp
  moreover from c have "take (nat ?i) ?n \<noteq> []" by auto
  ultimately have "suffix p = CHR ''.'' # drop (Suc (nat ?i)) ?n"
    "drop (Suc (nat ?i)) ?n \<noteq> []" "stem p \<noteq> []"
    using sfx st by simp_all
  with nd name_decomposed[of p] show ?thesis by blast
qed

lemma no_suffix_stem: "suffix p = [] \<Longrightarrow> stem p = name p"
  by (auto simp: suffix_def stem_def Let_def split: if_splits)

lemma stem_nonempty: "name p \<noteq> [] \<Longrightarrow> stem p \<noteq> []"
  by (auto simp: stem_def Let_def)

text \<open>What \<open>with_suffix\<close> returns for a suffix of the form \<open>.ext\<close>.\<close>

lemma with_suffix_sibling:
  assumes "name p \<noteq> []" and "ext \<noteq> []" and "CHR ''.'' \<notin> set ext" and "CHR ''/'' \<notin> set ext"
  shows "\<exists>q. with_suffix p (CHR ''.'' # ext) = Inr q
           \<and> root q = root p \<and> butlast (parts q) = butlast (parts p)
           \<and> name q = stem p @ CHR ''.'' # ext
           \<and> stem q = stem p \<and> suffix q = CHR ''.'' # ext"
proof -
  let ?sfx = "CHR ''.'' # ext"
  let ?q = "p\<lparr>parts := butlast (parts p) @ [stem p @ ?sfx]\<rparr>"
  have n: "(if suffix p = [] then name p @ ?sfx
            else take (length (name p) - length (suffix p)) (name p) @ ?sfx) = stem p @ ?sfx"
    using name_decomposed[of p] no_suffix_stem[of p]
    by (auto simp del: append_eq_append_conv)
  from assms have ws: "with_suffix p ?sfx = Inr ?q"
    by (simp add: with_suffix_def Let_def n del: append_eq_append_conv)
  have nq: "name ?q = stem p @ ?sfx" by (simp add: name_def)
  from assms(3) have rf: "rfind CHR ''.'' (name ?q) = int (length (stem p))"
    unfolding nq by (rule rfind_last)
  from stem_nonempty[OF assms(1)] assms(2)
  have c: "0 < rfind CHR ''.'' (name ?q)" "rfind CHR ''.'' (name ?q) < int (length (name ?q)) - 1"
    unfolding rf by (simp_all add: nq)
  have "stem ?q = take (nat (rfind CHR ''.'' (name ?q))) (name ?q)"
    unfolding stem_def[of ?q] Let_def using c by simp
  then have sq: "stem ?q = stem p" unfolding rf unfolding nq by simp
  have "suffix ?q = drop (nat (rfind CHR ''.'' (name ?q))) (name ?q)"
    unfolding suffix_def[of ?q] Let_def using c by simp
  then have xq: "suffix ?q = ?sfx" unfolding rf unfolding nq by simp
  have "root ?q = root p" "butlast (parts ?q) = butlast (parts p)" by simp_all
  with ws nq sq xq show ?thesis by blast
qed

lemma video_suffix_named: "lower (suffix p) \<in> video_suffixes \<Longrightarrow> name p \<noteq> []"
  by (auto simp: video_suffixes_def lower_def suffix_def Let_def split: if_splits)

section \<open>Normalisation of media files\<close>

lemma wav_sibling:
  assumes "lower (suffix fp) \<in> video_suffixes"
  shows "\<exists>a. with_suffix fp ''.wav'' = Inr a
           \<and> root a = root fp \<and> butlast (parts a) = butlast (parts fp)
           \<and> name a = stem fp @ ''.wav'' \<and> stem a = stem fp \<and> suffix a = ''.wav''"
  using with_suffix_sibling[OF video_suffix_named[OF assms], of "''wav''"] by simp

lemma video_extract:
  "extract_audio quiet \<lparr>root = [], parts = [''media'', ''video.mp4'']\<rparr> desk
     = (Inr \<lparr>root = [], parts = [''media'', ''video.wav'']\<rparr>, desk_wav)"
  by (simp add: extract_audio_def video_paths video_suffixes_def run_checked_def
        quiet_def desk_def desk_wav_def Let_def)

text \<open>
  C6. When the lowercased suffix of the path is one of \<open>.mp4\<close>, \<open>.mkv\<close>, \<open>.mov\<close>, \<open>.flv\<close>,
  the audio path is the sibling with the same directory, the same stem and the suffix
  \<open>.wav\<close>. If a file is already there, \<open>extract_audio\<close> returns the audio path and does
  nothing else. If not, it runs the extraction tool once, on the input and the audio
  path, and returns the audio path when the tool exits with status 0; otherwise it
  raises. For every other suffix it returns the input path and does nothing else.
\<close>

theorem extract_audio_behaviour:
  "(lower (suffix fp) \<in> video_suffixes \<longrightarrow>
      (\<exists>a. with_suffix fp ''.wav'' = Inr a
         \<and> root a = root fp \<and> butlast (parts a) = butlast (parts fp)
         \<and> stem a = stem fp \<and> suffix a = ''.wav''
         \<and> (disk w (path_str a) \<noteq> None \<longrightarrow> extract_audio e fp w = (Inr a, w))
         \<and> (disk w (path_str a) = None \<longrightarrow>
              (\<exists>r w'. extract_audio e fp w = (r, w')
                 \<and> trace w' = trace w @ [Ran [''ffmpeg'', ''-i'', path_str fp, path_str a]]
                 \<and> (fst (subprocess e w [''ffmpeg'', ''-i'', path_str fp, path_str a]) = Inr 0
                      \<longrightarrow> r = Inr a)
                 \<and> (fst (subprocess e w [''ffmpeg'', ''-i'', path_str fp, path_str a]) \<noteq> Inr 0
                      \<longrightarrow> (\<exists>x. r = Inl x))))))
   \<and> (lower (suffix fp) \<notin> video_suffixes \<longrightarrow> extract_audio e fp w = (Inr fp, w))"
proof (intro conjI impI)
  assume v: "lower (suffix fp) \<in> video_suffixes"
  from wav_sibling[OF v] obtain a where
    a: "with_suffix fp ''.wav'' = Inr a" "root a = root fp"
       "butlast (parts a) = butlast (parts fp)" "stem a = stem fp" "suffix a = ''.wav''"
    by blast
  let ?argv = "[''ffmpeg'', ''-i'', path_str fp, path_str a]"
  have there: "extract_audio e fp w = (Inr a, w)" if "disk w (path_str a) \<noteq> None"
    using v a(1) that by (auto simp: extract_audio_def)
  have missing: "\<exists>r w'. extract_audio e fp w = (r, w')
                 \<and> trace w' = trace w @ [Ran ?argv]
                 \<and> (fst (subprocess e w ?argv) = Inr 0 \<longrightarrow> r = Inr a)
                 \<and> (fst (subprocess e w ?argv) \<noteq> Inr 0 \<longrightarrow> (\<exists>x. r = Inl x))"
    if "disk w (path_str a) = None"
    using v a(1) that
    by (auto simp: extract_audio_def run_checked_def Let_def split: prod.splits sum.splits)
  show "\<exists>a. with_suffix fp ''.wav'' = Inr a
         \<and> root a = root fp \<and> butlast (parts a) = butlast (parts fp)
         \<and> stem a = stem fp \<and> suffix a = ''.wav''
         \<and> (disk w (path_str a) \<noteq> None \<longrightarrow> extract_audio e fp w = (Inr a, w))
         \<and> (disk w (path_str a) = None \<longrightarrow>
              (\<exists>r w'. extract_audio e fp w = (r, w')
                 \<and> trace w' = trace w @ [Ran [''ffmpeg'', ''-i'', path_str fp, path_str a]]
                 \<and> (fst (subprocess e w [''ffmpeg'', ''-i'', path_str fp, path_str a]) = Inr 0
                      \<longrightarrow> r = Inr a)
                 \<and> (fst (subprocess e w [''ffmpeg'', ''-i'', path_str fp, path_str a]) \<noteq> Inr 0
                      \<longrightarrow> (\<exists>x. r = Inl x))))"
    by (intro exI[of _ a] conjI impI there missing a) assumption+
next
  assume "lower (suffix fp) \<notin> video_suffixes"
  then show "extract_audio e fp w = (Inr fp, w)" by (simp add: extract_audio_def)
qed

theorem extract_audio_behaviour_witness:
  "fst (extract_audio quiet \<lparr>root = [], parts = [''media'', ''video.mp4'']\<rparr> desk)
      = Inr \<lparr>root = [], parts = [''media'', ''video.wav'']\<rparr>
   \<and> trace (snd (extract_audio quiet \<lparr>root = [], parts = [''media'', ''video.mp4'']\<rparr> desk))
      = trace desk @ [Ran [''ffmpeg'', ''-i'', ''media/video.mp4'', ''media/video.wav'']]
   \<and> extract_audio quiet \<lparr>root = [], parts = [''media'', ''video.mp4'']\<rparr> desk_wav
      = (Inr \<lparr>root = [], parts = [''media'', ''video.wav'']\<rparr>, desk_wav)
   \<and> extract_audio quiet \<lparr>root = [], parts = [''media'', ''clip.mp3'']\<rparr> desk
      = (Inr \<lparr>root = [], parts = [''media'', ''clip.mp3'']\<rparr>, desk)"
proof -
  let ?mp4 = "\<lparr>root = [], parts = [''media'', ''video.mp4'']\<rparr>"
  let ?wav = "\<lparr>root = [], parts = [''media'', ''video.wav'']\<rparr>"
  let ?mp3 = "\<lparr>root = [], parts = [''media'', ''clip.mp3'']\<rparr>"
  have v: "lower (suffix ?mp4) \<in> video_suffixes" "lower (suffix ?mp3) \<notin> video_suffixes"
    by (simp_all add: video_paths clip_paths video_suffixes_def)
  have d: "disk desk (path_str ?wav) = None" "disk desk_wav (path_str ?wav) \<noteq> None"
    by (simp_all add: video_paths desk_def desk_wav_def)
  have ok: "fst (subprocess quiet desk [''ffmpeg'', ''-i'', path_str ?mp4, path_str ?wav]) = Inr 0"
    by (simp add: quiet_def)
  from extract_audio_behaviour[of ?mp4 desk quiet] v(1) d(1) ok video_paths(2)
  have 1: "fst (extract_audio quiet ?mp4 desk) = Inr ?wav
     \<and> trace (snd (extract_audio quiet ?mp4 desk))
      = trace desk @ [Ran [''ffmpeg'', ''-i'', ''media/video.mp4'', ''media/video.wav'']]"
    by (auto simp: video_paths)
  from extract_audio_behaviour[of ?mp4 desk_wav quiet] v(1) d(2) video_paths(2)
  have 2: "extract_audio quiet ?mp4 desk_wav = (Inr ?wav, desk_wav)" by auto
  from extract_audio_behaviour[of ?mp3 desk quiet] v(2)
  have 3: "extract_audio quiet ?mp3 desk = (Inr ?mp3, desk)" by blast
  from 1 2 3 show ?thesis by blast
qed

section \<open>Extraction happens once\<close>

text \<open>
  C7. Let the extraction tool keep its contract: when it exits with status 0 the output
  file is there. When a first call of \<open>extract_audio\<close> on a video path has returned,
  a second call right after it returns the same audio path and changes nothing, so the
  two calls together have run the extraction tool at most once.
\<close>

theorem extract_audio_twice:
  assumes "lower (suffix fp) \<in> video_suffixes"
    and "extract_audio e fp w = (Inr a, w1)"
    and "\<forall>d. subprocess e w [''ffmpeg'', ''-i'', path_str fp, path_str a] = (Inr 0, d)
           \<longrightarrow> d (path_str a) \<noteq> None"
  shows "extract_audio e fp w1 = (Inr a, w1)
       \<and> length (filter extraction (trace w1)) \<le> Suc (length (filter extraction (trace w)))"
proof -
  from wav_sibling[OF assms(1)] obtain a' where a': "with_suffix fp ''.wav'' = Inr a'" by blast
  show ?thesis
  proof (cases "disk w (path_str a') = None")
    case False
    with assms(1,2) a' have "a = a'" "w1 = w" by (auto simp: extract_audio_def)
    with assms(2) show ?thesis by simp
  next
    case True
    let ?argv = "[''ffmpeg'', ''-i'', path_str fp, path_str a']"
    from True assms(1,2) a' have run: "run_checked e ?argv w = (Inr (), w1)" and aa: "a = a'"
      by (auto simp: extract_audio_def split: prod.splits sum.splits)
    then obtain d where d: "subprocess e w ?argv = (Inr 0, d)"
      and w1: "w1 = w\<lparr>disk := d, trace := trace w @ [Ran ?argv]\<rparr>"
      by (auto simp: run_checked_def Let_def split: prod.splits sum.splits if_splits)
    from assms(3) d aa have "d (path_str a') \<noteq> None" by simp
    with w1 have "disk w1 (path_str a') \<noteq> None" by simp
    with assms(1) a' aa have "extract_audio e fp w1 = (Inr a, w1)"
      by (auto simp: extract_audio_def)
    moreover from w1 have "length (filter extraction (trace w1))
        \<le> Suc (length (filter extraction (trace w)))" by simp
    ultimately show ?thesis by blast
  qed
qed

theorem extract_audio_twice_witness:
  "extract_audio quiet \<lparr>root = [], parts = [''media'', ''video.mp4'']\<rparr> desk
      = (Inr \<lparr>root = [], parts = [''media'', ''video.wav'']\<rparr>, desk_wav)
   \<and> extract_audio quiet \<lparr>root = [], parts = [''media'', ''video.mp4'']\<rparr> desk_wav
      = (Inr \<lparr>root = [], parts = [''media'', ''video.wav'']\<rparr>, desk_wav)
   \<and> length (filter extraction (trace desk_wav)) \<le> Suc (length (filter extraction (trace desk)))"
proof -
  let ?mp4 = "\<lparr>root = [], parts = [''media'', ''video.mp4'']\<rparr>"
  let ?wav = "\<lparr>root = [], parts = [''media'', ''video.wav'']\<rparr>"
  have v: "lower (suffix ?mp4) \<in> video_suffixes"
    by (simp add: video_paths video_suffixes_def)
  have c: "\<forall>d. subprocess quiet desk [''ffmpeg'', ''-i'', path_str ?mp4, path_str ?wav] = (Inr 0, d)
           \<longrightarrow> d (path_str ?wav) \<noteq> None"
    by (auto simp: quiet_def video_paths)
  from extract_audio_twice[OF v video_extract c] video_extract show ?thesis by simp
qed

section \<open>Facts about the transcript encoding\<close>

lemma of_char_bound: "(of_char c :: nat) < 256"
proof -
  have "(of_char c :: nat) mod 256 = of_char c" by simp
  then show ?thesis by (metis mod_less_divisor zero_less_numeral)
qed

lemma utf8_char_prefix_free:
  assumes "utf8_char c @ xs = utf8_char c' @ ys"
  shows "c = c' \<and> xs = ys"
proof -
  let ?n = "of_char c :: nat" and ?m = "of_char c' :: nat"
  have bn: "?n < 256" and bm: "?m < 256" by (rule of_char_bound)+
  have lead: "(of_char (char_of (192 + k div 64) :: char) :: nat) = 192 + k div 64"
    if "k < 256" for k :: nat
    using that by simp
  have cont: "(of_char (char_of (128 + k mod 64) :: char) :: nat) = 128 + k mod 64"
    for k :: nat
  proof -
    have "128 + k mod 64 < 256" by (simp add: less_le_trans[OF mod_less_divisor]) 
    then show ?thesis by simp
  qed
  consider (aa) "?n < 128" "?m < 128" | (ab) "?n < 128" "\<not> ?m < 128"
    | (ba) "\<not> ?n < 128" "?m < 128" | (bb) "\<not> ?n < 128" "\<not> ?m < 128" by blast
  then show ?thesis
  proof cases
    case aa
    with assms show ?thesis by (simp add: utf8_char_def Let_def)
  next
    case ab
    with assms have "c = char_of (192 + ?m div 64)" by (simp add: utf8_char_def Let_def)
    then have "?n = 192 + ?m div 64" using lead[OF bm] by simp
    with ab show ?thesis by simp
  next
    case ba
    with assms have "c' = char_of (192 + ?n div 64)" by (simp add: utf8_char_def Let_def)
    then have "?m = 192 + ?n div 64" using lead[OF bn] by simp
    with ba show ?thesis by simp
  next
    case bb
    with assms have e: "(char_of (192 + ?n div 64) :: char) = char_of (192 + ?m div 64)"
      "(char_of (128 + ?n mod 64) :: char) = char_of (128 + ?m mod 64)" "xs = ys"
      by (simp_all add: utf8_char_def Let_def)
    from e(1) have "192 + ?n div 64 = 192 + ?m div 64"
      using lead[OF bn] lead[OF bm] by metis
    moreover from e(2) have "128 + ?n mod 64 = 128 + ?m mod 64"
      using cont[of ?n] cont[of ?m] by metis
    ultimately have "?n = ?m" by (metis add_left_cancel div_mult_mod_eq)
    then have "c = c'" by simp
    with e(3) show ?thesis by simp
  qed
qed

lemma utf8_char_nonempty: "utf8_char c \<noteq> []"
  by (simp add: utf8_char_def Let_def)

lemma utf8_injective: "utf8 s = utf8 s' \<Longrightarrow> s = s'"
proof (induction s arbitrary: s')
  case Nil
  then show ?case
    by (cases s') (simp_all add: utf8_def utf8_char_nonempty)
next
  case (Cons c s)
  show ?case
  proof (cases s')
    case Nil
    with Cons.prems show ?thesis by (simp add: utf8_def utf8_char_nonempty)
  next
    case (Cons c' t)
    with Cons.prems have "utf8_char c @ utf8 s = utf8_char c' @ utf8 t"
      by (simp add: utf8_def)
    from utf8_char_prefix_free[OF this] Cons.IH Cons show ?thesis by simp
  qed
qed

section \<open>Where the transcript goes\<close>

lemma update_fresh_append: "p \<notin> fst ` set ps \<Longrightarrow> AList.update p n ps = ps @ [(p, n)]"
  by (induction ps) auto

lemma map_of_fresh_append: "p \<notin> fst ` set ps \<Longrightarrow> map_of (ps @ [(p, n)]) p = Some n"
  by (induction ps) auto

lemma txt_sibling:
  assumes "with_suffix fp ''.txt'' = Inr t"
  shows "root t = root fp \<and> butlast (parts t) = butlast (parts fp)
       \<and> name t = stem fp @ ''.txt'' \<and> stem t = stem fp \<and> suffix t = ''.txt''"
proof -
  from assms have "name fp \<noteq> []" by (auto simp: with_suffix_def split: if_splits)
  from with_suffix_sibling[OF this, of "''txt''"] assms show ?thesis by simp
qed

lemma video_ready_quiet:
  "wait_for_download quiet ''media/video.mp4'' 900 5 desk = Some (Inr True, tick quiet 5 desk)"
  unfolding wait_for_download_def
  by (subst wait_loop.simps) (simp add: desk_def quiet_def sleep_def getsize_def tick_def)

lemma video_run:
  "transcribe_file quiet ''media/video.mp4'' speech [] desk =
     Some (Inr (), [(''media/video.mp4'', ''video.txt'')], desk_video_done)"
  apply (simp add: transcribe_file_def video_ready_quiet extract_audio_def video_paths
       clip_paths video_suffixes_def run_checked_def transcribe_def speech_def write_text_def
       record_entry_def save_processed_files_def quiet_simps Let_def)
  apply (simp add: tick_def desk_def desk_video_done_def quiet_simps)
  done

text \<open>
  C8. When \<open>transcribe_file\<close> has processed an unprocessed path (it returned normally and
  the path is now a key of the processed set), the transcript path is the \<open>.txt\<close> sibling
  of the input path itself: same directory, same stem, suffix \<open>.txt\<close>, whatever the audio
  path was. The file there holds exactly the UTF-8 bytes of the text that the model
  returned for the audio path, whatever was there before, and the processed set is the
  old one with one entry added, from the input path to the name of the transcript file.
  The UTF-8 encoding loses nothing: different texts have different bytes.
\<close>

theorem transcript_beside_source:
  assumes "p \<notin> fst ` set ps"
    and "transcribe_file e p model ps w = Some (Inr (), ps', w')"
    and "p \<in> fst ` set ps'"
  shows "\<exists>t w1 a w2 res.
      with_suffix (Path p) ''.txt'' = Inr t
    \<and> root t = root (Path p) \<and> butlast (parts t) = butlast (parts (Path p))
    \<and> stem t = stem (Path p) \<and> suffix t = ''.txt''
    \<and> wait_for_download e p 900 5 w = Some (Inr True, w1)
    \<and> extract_audio e (Path p) w1 = (Inr a, w2)
    \<and> model w2 (path_str a) = Inr res
    \<and> disk w' (path_str t) = Some (utf8 (text_of res))
    \<and> (\<forall>s. utf8 s = utf8 (text_of res) \<longrightarrow> s = text_of res)
    \<and> ps' = ps @ [(p, name t)] \<and> map_of ps' p = Some (name t)"
  using assms(1,2)
proof (cases rule: transcribe_file_cases)
  case (saved w1 a w2 res w3 t w4 w5)
  from transcribe_frame[OF saved(3)] have m: "model w2 (path_str a) = Inr res" by simp
  from write_text_cases[OF saved(5)] have d4: "disk w4 (path_str t) = Some (utf8 (text_of res))"
    by auto
  from record_entry_frame[OF saved(6)] have r: "ps' = AList.update p (name t) ps"
    "disk w5 = disk w4" by blast+
  from save_processed_files_cases(1)[OF saved(7)] r(2) d4
  have d: "disk w' (path_str t) = Some (utf8 (text_of res))" by simp
  from r(1) update_fresh_append[OF assms(1)] have ps': "ps' = ps @ [(p, name t)]" by simp
  with map_of_fresh_append[OF assms(1)] have look: "map_of ps' p = Some (name t)" by simp
  have safe: "\<forall>s. utf8 s = utf8 (text_of res) \<longrightarrow> s = text_of res"
    using utf8_injective by blast
  from txt_sibling[OF saved(4)] saved(1,2,4) m d safe ps' look show ?thesis by blast
qed (use assms(1,3) in \<open>auto simp: image_iff\<close>)

theorem transcript_beside_source_witness:
  "transcribe_file quiet ''media/video.mp4'' speech [] desk
     = Some (Inr (), [(''media/video.mp4'', ''video.txt'')], desk_video_done)
   \<and> (\<exists>t a res. with_suffix (Path ''media/video.mp4'') ''.txt'' = Inr t
        \<and> stem t = stem (Path ''media/video.mp4'') \<and> suffix t = ''.txt''
        \<and> fst (extract_audio quiet (Path ''media/video.mp4'') (tick quiet 5 desk)) = Inr a
        \<and> speech (snd (extract_audio quiet (Path ''media/video.mp4'') (tick quiet 5 desk)))
             (path_str a) = Inr res
        \<and> disk desk_video_done (path_str t) = Some (utf8 (text_of res))
        \<and> map_of [(''media/video.mp4'', ''video.txt'')] ''media/video.mp4'' = Some (name t))"
proof -
  have fresh: "''media/video.mp4'' \<notin> fst ` set ([] :: pset)" by simp
  have rec: "''media/video.mp4'' \<in> fst ` set [(''media/video.mp4'', ''video.txt'')]" by simp
  from transcript_beside_source[OF fresh video_run rec] obtain t w1 a w2 res where
    t: "with_suffix (Path ''media/video.mp4'') ''.txt'' = Inr t"
      "stem t = stem (Path ''media/video.mp4'')" "suffix t = ''.txt''"
      "wait_for_download quiet ''media/video.mp4'' 900 5 desk = Some (Inr True, w1)"
      "extract_audio quiet (Path ''media/video.mp4'') w1 = (Inr a, w2)"
      "speech w2 (path_str a) = Inr res"
      "disk desk_video_done (path_str t) = Some (utf8 (text_of res))"
      "map_of [(''media/video.mp4'', ''video.txt'')] ''media/video.mp4'' = Some (name t)"
    by blast
  from t(4) video_ready_quiet have "w1 = tick quiet 5 desk" by simp
  with t(5) have "fst (extract_audio quiet (Path ''media/video.mp4'') (tick quiet 5 desk)) = Inr a"
    "snd (extract_audio quiet (Path ''media/video.mp4'') (tick quiet 5 desk)) = w2" by simp_all
  with t video_run show ?thesis by blast
qed

section \<open>Facts about the extension test\<close>













section \<open>Files outside the supported formats\<close>








section \<open>Scope of the extension test\<close>










end
